theory Spec2Isabelle
  imports Main "HOL-Library.Word"
begin

unbundle bit_operations_syntax

section \<open>Conditional DePhase (Differential Manchester) transcoder\<close>

text \<open>
  A shallow embedding of \<^verbatim>\<open>src/src/cdp.cpp\<close>.  The C++ integer types are words:
  \<^verbatim>\<open>uint8_t\<close> is \<open>8 word\<close>, \<^verbatim>\<open>uint16_t\<close> is \<open>16 word\<close>, and \<^verbatim>\<open>size_t\<close> is
  \<open>'w word\<close> for an arbitrary width \<open>'w\<close>, since the width of \<^verbatim>\<open>size_t\<close> depends on
  the platform.  The signal level that the source passes by address is threaded
  explicitly: every function returns the new level next to its result.
\<close>

type_synonym u8 = "8 word"
type_synonym u16 = "16 word"

subsection \<open>Constants and bit access\<close>

definition LOGIC_LEVEL_LOW :: u8 where
  "LOGIC_LEVEL_LOW = 0"

definition LOGIC_LEVEL_HIGH :: u8 where
  "LOGIC_LEVEL_HIGH = 1"

definition INITIAL_SIGNAL_LEVEL :: u8 where
  "INITIAL_SIGNAL_LEVEL = LOGIC_LEVEL_HIGH"

text \<open>
  \<^verbatim>\<open>GET_BIT(data, bit_n)\<close> is \<^verbatim>\<open>(data >> bit_n) & 0x01\<close>, returned as \<^verbatim>\<open>uint8_t\<close>.
  The three overloads of the source differ in the width of \<open>data\<close> only.
\<close>

definition GET_BIT :: "'a::len word \<Rightarrow> u8 \<Rightarrow> u8" where
  "GET_BIT data bit_n = ucast (drop_bit (unat bit_n) data AND 1)"

subsection \<open>Bit rules\<close>

text \<open>\<^verbatim>\<open>CDP::encode_bit\<close>: the result is the emitted symbol and the new level.\<close>

definition encode_bit :: "u8 \<Rightarrow> u8 \<Rightarrow> u8 \<times> u8" where
  "encode_bit data_bit current_signal_level =
     (if data_bit = current_signal_level
      then (2, LOGIC_LEVEL_LOW)
      else (1, LOGIC_LEVEL_HIGH))"

text \<open>
  \<^verbatim>\<open>CDP::decode_bit\<close>: the result is the recovered bit and the new level.  The
  C++ \<^verbatim>\<open>!x\<close> is 1 when \<open>x\<close> is 0 and 0 otherwise.
\<close>

definition decode_bit :: "u8 \<Rightarrow> u8 \<Rightarrow> u8 \<times> u8" where
  "decode_bit data_bit current_signal_level =
     (if data_bit = 2
      then (current_signal_level, LOGIC_LEVEL_LOW)
      else ((if current_signal_level = 0 then 1 else 0), LOGIC_LEVEL_HIGH))"

subsection \<open>Byte encode\<close>

text \<open>
  The loop of \<^verbatim>\<open>CDP::encode_byte\<close>, started at \<open>i = 0\<close>, \<open>encode_bit_i = 8\<close> and
  \<open>encoded_byte = 0\<close>.  The counters are \<^verbatim>\<open>uint8_t\<close>; the shift amount
  \<^verbatim>\<open>encode_bit_i+1\<close> is computed after integer promotion, so it does not wrap.
\<close>

function encode_byte_loop :: "u8 \<Rightarrow> u8 \<Rightarrow> u8 \<Rightarrow> u16 \<Rightarrow> u8 \<Rightarrow> u16 \<times> u8" where
  "encode_byte_loop i data_byte encode_bit_i encoded_byte current_signal_level =
     (if i < 8 then
        (case encode_bit (GET_BIT data_byte i) current_signal_level of
           (data_bit, level') \<Rightarrow>
             let encoded1 = encoded_byte OR
                   push_bit (unat encode_bit_i) (ucast (GET_BIT data_bit 1));
                 encoded2 = encoded1 OR
                   push_bit (unat encode_bit_i + 1) (ucast (GET_BIT data_bit 0));
                 next_i = encode_bit_i + 2
             in encode_byte_loop (i + 1) data_byte
                  (if next_i \<ge> 16 then 0 else next_i) encoded2 level')
      else (encoded_byte, current_signal_level))"
  by pat_completeness auto
termination
  by (relation "measure (\<lambda>(i, _). 8 - unat i)")
     (auto simp: word_less_nat_alt unat_word_ariths)

definition encode_byte :: "u8 \<Rightarrow> u8 \<Rightarrow> u16 \<times> u8" where
  "encode_byte data_byte current_signal_level =
     encode_byte_loop 0 data_byte 8 0 current_signal_level"

subsection \<open>Byte decode\<close>

text \<open>
  \<^verbatim>\<open>CDP::decode_byte\<close> runs two loops with the same body: the first over the
  symbols of the high byte (\<open>i = 8, 10, 12, 14\<close>), the second over those of the low
  byte (\<open>i = 0, 2, 4, 6\<close>).  The state carried from the first to the second is
  \<open>decode_bit_i\<close>, \<open>decoded_byte\<close> and the signal level.
\<close>

function decode_byte_loop_msb :: "u8 \<Rightarrow> u16 \<Rightarrow> u8 \<Rightarrow> u16 \<Rightarrow> u8 \<Rightarrow> u8 \<times> u16 \<times> u8" where
  "decode_byte_loop_msb i data_byte decode_bit_i decoded_byte current_signal_level =
     (if i < 16 then
        (let data_bit0 = GET_BIT data_byte (i + 1);
             data_bit1 = data_bit0 OR push_bit 1 (GET_BIT data_byte i)
         in case decode_bit data_bit1 current_signal_level of
              (data_bit, level') \<Rightarrow>
                decode_byte_loop_msb (i + 2) data_byte (decode_bit_i + 1)
                  (decoded_byte OR push_bit (unat decode_bit_i) (ucast data_bit)) level')
      else (decode_bit_i, decoded_byte, current_signal_level))"
  by pat_completeness auto
termination
  by (relation "measure (\<lambda>(i, _). 16 - unat i)")
     (auto simp: word_less_nat_alt unat_word_ariths)

function decode_byte_loop_lsb :: "u8 \<Rightarrow> u16 \<Rightarrow> u8 \<Rightarrow> u16 \<Rightarrow> u8 \<Rightarrow> u8 \<times> u16 \<times> u8" where
  "decode_byte_loop_lsb i data_byte decode_bit_i decoded_byte current_signal_level =
     (if i < 8 then
        (let data_bit0 = GET_BIT data_byte (i + 1);
             data_bit1 = data_bit0 OR push_bit 1 (GET_BIT data_byte i)
         in case decode_bit data_bit1 current_signal_level of
              (data_bit, level') \<Rightarrow>
                decode_byte_loop_lsb (i + 2) data_byte (decode_bit_i + 1)
                  (decoded_byte OR push_bit (unat decode_bit_i) (ucast data_bit)) level')
      else (decode_bit_i, decoded_byte, current_signal_level))"
  by pat_completeness auto
termination
  by (relation "measure (\<lambda>(i, _). 8 - unat i)")
     (auto simp: word_less_nat_alt unat_word_ariths)

text \<open>The returned byte is the \<^verbatim>\<open>uint16_t\<close> accumulator converted to \<^verbatim>\<open>uint8_t\<close>.\<close>

definition decode_byte :: "u16 \<Rightarrow> u8 \<Rightarrow> u8 \<times> u8" where
  "decode_byte data_byte current_signal_level =
     (case decode_byte_loop_msb 8 data_byte 0 0 current_signal_level of
        (decode_bit_i, decoded_byte, level1) \<Rightarrow>
          (case decode_byte_loop_lsb 0 data_byte decode_bit_i decoded_byte level1 of
             (_, decoded_byte', level2) \<Rightarrow> (ucast decoded_byte', level2)))"

subsection \<open>Buffers\<close>

text \<open>
  A buffer is the list of the bytes that the pointer can address; the length
  argument that the source receives next to the pointer is a separate
  \<^verbatim>\<open>size_t\<close> value, so that a call may declare more or fewer bytes than the
  buffer holds.  Reading or writing outside the buffer is undefined behaviour
  in C++; the model stops there with a fault.  Input and output buffers are
  taken to be disjoint.
\<close>

datatype fault = OutOfBoundsRead | OutOfBoundsWrite

text \<open>
  The loop of \<^verbatim>\<open>CDP::encode\<close>.  It ends: \<open>i\<close> stays below \<open>data_in_len\<close>, so
  \<open>i++\<close> never wraps.  The output index \<open>encode_byte_i\<close> is a \<^verbatim>\<open>size_t\<close> and
  may wrap.  The two writes of an iteration are checked together: a fault
  carries no buffer, so it makes no difference that the source has already
  made the first write when the second one is out of bounds.
\<close>

function encode_loop ::
  "'w::len word \<Rightarrow> u8 list \<Rightarrow> 'w word \<Rightarrow> 'w word \<Rightarrow> u8 \<Rightarrow> u8 list \<Rightarrow> fault + u8 list" where
  "encode_loop i data_in data_in_len encode_byte_i current_signal_level data_out =
     (if i < data_in_len then
        if length data_in \<le> unat i then Inl OutOfBoundsRead
        else
          (case encode_byte (data_in ! unat i) current_signal_level of
             (encoded_byte, level') \<Rightarrow>
               if length data_out \<le> unat encode_byte_i then Inl OutOfBoundsWrite
               else if length data_out \<le> unat (encode_byte_i + 1) then Inl OutOfBoundsWrite
               else
                 encode_loop (i + 1) data_in data_in_len (encode_byte_i + 2) level'
                   (data_out[unat encode_byte_i := ucast (drop_bit 8 encoded_byte AND 0x00ff),
                             unat (encode_byte_i + 1) := ucast (encoded_byte AND 0x00ff)]))
      else Inr data_out)"
  by pat_completeness auto
termination
proof (relation "measure (\<lambda>(i, _, data_in_len, _). unat data_in_len - unat i)")
  fix i data_in_len :: "'w::len word"
  assume "i < data_in_len"
  then have "unat data_in_len - unat (i + 1) < unat data_in_len - unat i"
    by unat_arith
  then show "\<And>data_in e l out x xa y.
      ((i + 1, data_in, data_in_len, e + 2, y,
        out[unat e := ucast (drop_bit 8 xa AND 0x00ff),
            unat (e + 1) := ucast (xa AND 0x00ff)]),
       i, data_in, data_in_len, e, l, out)
        \<in> measure (\<lambda>(i, _, data_in_len, _). unat data_in_len - unat i)"
    by simp
qed simp

declare encode_loop.simps [simp del]

text \<open>
  \<^verbatim>\<open>CDP::encode\<close>.  The guard multiplies in \<^verbatim>\<open>size_t\<close>.  The result is the
  returned flag and the output buffer after the call.
\<close>

definition encode :: "u8 list \<Rightarrow> 'w::len word \<Rightarrow> u8 list \<Rightarrow> 'w word \<Rightarrow> fault + bool \<times> u8 list" where
  "encode data_in data_in_len data_out data_out_len =
     (if data_in_len * 2 > data_out_len then Inr (False, data_out)
      else
        (case encode_loop 0 data_in data_in_len 0 INITIAL_SIGNAL_LEVEL data_out of
           Inl f \<Rightarrow> Inl f
         | Inr out \<Rightarrow> Inr (True, out)))"

text \<open>
  The loop of \<^verbatim>\<open>CDP::decode\<close>.  With \<open>data_in_len\<close> the largest \<^verbatim>\<open>size_t\<close>,
  \<open>i = i + 2\<close> wraps to 0 and the loop can run forever, so the loop is a partial
  function: \<open>None\<close> is a run that does not return.
\<close>

partial_function (option) decode_loop ::
  "'w::len word \<Rightarrow> u8 list \<Rightarrow> 'w word \<Rightarrow> 'w word \<Rightarrow> u8 \<Rightarrow> u8 list \<Rightarrow> (fault + u8 list) option" where
  "decode_loop i data_in data_in_len decode_byte_i current_signal_level data_out =
     (if i < data_in_len then
        if length data_in \<le> unat i then Some (Inl OutOfBoundsRead)
        else if length data_in \<le> unat (i + 1) then Some (Inl OutOfBoundsRead)
        else
          (case decode_byte
                  (0 OR push_bit 8 (ucast (data_in ! unat i)) OR ucast (data_in ! unat (i + 1)))
                  current_signal_level of
             (decoded, level') \<Rightarrow>
               if length data_out \<le> unat decode_byte_i then Some (Inl OutOfBoundsWrite)
               else
                 decode_loop (i + 2) data_in data_in_len (decode_byte_i + 1) level'
                   (data_out[unat decode_byte_i := decoded]))
      else Some (Inr data_out))"

declare decode_loop.simps [code]

text \<open>\<^verbatim>\<open>CDP::decode\<close>.\<close>

definition decode :: "u8 list \<Rightarrow> 'w::len word \<Rightarrow> u8 list \<Rightarrow> 'w word \<Rightarrow> (fault + bool \<times> u8 list) option" where
  "decode data_in data_in_len data_out data_out_len =
     (if data_out_len * 2 < data_in_len then Some (Inr (False, data_out))
      else
        (case decode_loop 0 data_in data_in_len 0 INITIAL_SIGNAL_LEVEL data_out of
           None \<Rightarrow> None
         | Some (Inl f) \<Rightarrow> Some (Inl f)
         | Some (Inr out) \<Rightarrow> Some (Inr (True, out))))"

subsection \<open>The wire layout in the words of the specification\<close>

text \<open>
  The specification describes the packing by positions: the symbol of raw bit
  \<open>k\<close> sits at the encoded bit positions \<open>symbol_position k\<close> and
  \<open>symbol_position k + 1\<close>, where the positions start at 8, advance by 2 and
  wrap from 16 back to 0.
\<close>

definition symbol_position :: "nat \<Rightarrow> nat" where
  "symbol_position k = (8 + 2 * k) mod 16"

text \<open>
  The signal level before raw bit \<open>k\<close> of a byte is encoded, and the symbol that
  \<open>encode_bit\<close> emits for that bit, when the byte is entered with level \<open>l\<close>.
\<close>

fun level_at :: "u8 \<Rightarrow> u8 \<Rightarrow> nat \<Rightarrow> u8" where
  "level_at b l 0 = l"
| "level_at b l (Suc k) = snd (encode_bit (GET_BIT b (of_nat k)) (level_at b l k))"

definition symbol_at :: "u8 \<Rightarrow> u8 \<Rightarrow> nat \<Rightarrow> u8" where
  "symbol_at b l k = fst (encode_bit (GET_BIT b (of_nat k)) (level_at b l k))"

text \<open>
  The decoder's view: the \<open>k\<close>-th symbol read from an encoded unit, the level
  before it is decoded, and the bit that \<open>decode_bit\<close> recovers from it.
\<close>

definition wire_symbol :: "u16 \<Rightarrow> nat \<Rightarrow> u8" where
  "wire_symbol e k =
     GET_BIT e (of_nat (symbol_position k) + 1) OR
     push_bit 1 (GET_BIT e (of_nat (symbol_position k)))"

fun decode_level_at :: "u16 \<Rightarrow> u8 \<Rightarrow> nat \<Rightarrow> u8" where
  "decode_level_at e l 0 = l"
| "decode_level_at e l (Suc k) = snd (decode_bit (wire_symbol e k) (decode_level_at e l k))"

definition decoded_bit :: "u16 \<Rightarrow> u8 \<Rightarrow> nat \<Rightarrow> u8" where
  "decoded_bit e l k = fst (decode_bit (wire_symbol e k) (decode_level_at e l k))"

text \<open>
  The byte streams in the words of the specification: each raw byte becomes the
  high byte and then the low byte of its encoded unit, with the level carried
  from byte to byte; each pair of encoded bytes, high byte first, becomes one
  raw byte, and a trailing single byte yields nothing.
\<close>

fun encoded_stream :: "u8 list \<Rightarrow> u8 \<Rightarrow> u8 list" where
  "encoded_stream [] l = []"
| "encoded_stream (b # bs) l =
     (case encode_byte b l of
        (e, l') \<Rightarrow> ucast (drop_bit 8 e AND 0x00ff) # ucast (e AND 0x00ff) # encoded_stream bs l')"

fun decoded_stream :: "u8 list \<Rightarrow> u8 \<Rightarrow> u8 list" where
  "decoded_stream (h # lo # rest) l =
     (case decode_byte (0 OR push_bit 8 (ucast h) OR ucast lo) l of
        (b, l') \<Rightarrow> b # decoded_stream rest l')"
| "decoded_stream [h] l = []"
| "decoded_stream [] l = []"

text \<open>
  The signal level with which byte \<open>j\<close> of a buffer is entered when the first
  byte is entered with level \<open>l\<close>.
\<close>

fun entry_level :: "u8 list \<Rightarrow> u8 \<Rightarrow> nat \<Rightarrow> u8" where
  "entry_level bs l 0 = l"
| "entry_level bs l (Suc j) = snd (encode_byte (bs ! j) (entry_level bs l j))"

section \<open>Byte level\<close>

subsection \<open>Closed forms of the two byte loops\<close>

lemma level_at_numeral: "level_at b l (numeral n) = snd (encode_bit (GET_BIT b (of_nat (pred_numeral n))) (level_at b l (pred_numeral n)))"
  by (simp add: numeral_eq_Suc)

lemma decode_level_at_numeral: "decode_level_at e l (numeral n) = snd (decode_bit (wire_symbol e (pred_numeral n)) (decode_level_at e l (pred_numeral n)))"
  by (simp add: numeral_eq_Suc)

lemma encode_byte_closed:
  "encode_byte b l =
     (push_bit 8 (ucast (GET_BIT (symbol_at b l 0) 1)) OR push_bit 9 (ucast (GET_BIT (symbol_at b l 0) 0)) OR
      push_bit 10 (ucast (GET_BIT (symbol_at b l 1) 1)) OR push_bit 11 (ucast (GET_BIT (symbol_at b l 1) 0)) OR
      push_bit 12 (ucast (GET_BIT (symbol_at b l 2) 1)) OR push_bit 13 (ucast (GET_BIT (symbol_at b l 2) 0)) OR
      push_bit 14 (ucast (GET_BIT (symbol_at b l 3) 1)) OR push_bit 15 (ucast (GET_BIT (symbol_at b l 3) 0)) OR
      push_bit 0 (ucast (GET_BIT (symbol_at b l 4) 1)) OR push_bit 1 (ucast (GET_BIT (symbol_at b l 4) 0)) OR
      push_bit 2 (ucast (GET_BIT (symbol_at b l 5) 1)) OR push_bit 3 (ucast (GET_BIT (symbol_at b l 5) 0)) OR
      push_bit 4 (ucast (GET_BIT (symbol_at b l 6) 1)) OR push_bit 5 (ucast (GET_BIT (symbol_at b l 6) 0)) OR
      push_bit 6 (ucast (GET_BIT (symbol_at b l 7) 1)) OR push_bit 7 (ucast (GET_BIT (symbol_at b l 7) 0)),
      level_at b l 8)"
  by (simp add: encode_byte_def encode_byte_loop.simps Let_def case_prod_beta symbol_at_def level_at_numeral
        or.assoc split del: if_split del: push_bit_Suc)

lemma decode_byte_closed:
  "decode_byte e l =
     (ucast (push_bit 0 (ucast (decoded_bit e l 0)) OR push_bit 1 (ucast (decoded_bit e l 1)) OR
             push_bit 2 (ucast (decoded_bit e l 2)) OR push_bit 3 (ucast (decoded_bit e l 3)) OR
             push_bit 4 (ucast (decoded_bit e l 4)) OR push_bit 5 (ucast (decoded_bit e l 5)) OR
             push_bit 6 (ucast (decoded_bit e l 6)) OR push_bit 7 (ucast (decoded_bit e l 7)) :: u16),
      decode_level_at e l 8)"
  by (simp add: decode_byte_def decode_byte_loop_msb.simps decode_byte_loop_lsb.simps Let_def
        case_prod_beta decoded_bit_def wire_symbol_def symbol_position_def decode_level_at_numeral
        or.assoc split del: if_split del: push_bit_Suc)

lemma GET_BIT_bit: "GET_BIT w n = (if bit w (unat n) then 1 else 0)"
  unfolding GET_BIT_def
  by (rule bit_word_eqI) (auto simp: bit_simps intro!: gr0I)

lemma symbol_bits:
  "GET_BIT (fst (encode_bit d c)) 1 = (if d = c then 1 else 0)"
  "GET_BIT (fst (encode_bit d c)) 0 = (if d = c then 0 else 1)"
  by (simp_all add: encode_bit_def GET_BIT_def)

lemma bit_ucast_flag:
  "bit (ucast (if P then 1 else 0 :: u8) :: u16) n \<longleftrightarrow> P \<and> n = 0"
  "bit (ucast (if P then 0 else 1 :: u8) :: u16) n \<longleftrightarrow> \<not> P \<and> n = 0"
  by (auto simp: bit_simps)

lemma bit_times2: "bit (w * 2 :: u16) n \<longleftrightarrow> 0 < n \<and> n < 16 \<and> bit w (n - 1)"
proof -
  have "w * 2 = push_bit 1 w"
    by (simp add: push_bit_eq_mult)
  then show ?thesis
    by (auto simp: bit_push_bit_iff simp del: push_bit_Suc)
qed

lemma bit_flag8:
  "bit (if P then 1 else 0 :: u8) n \<longleftrightarrow> P \<and> n = 0"
  by (auto simp: bit_simps)

lemma encoded_bits:
  assumes "k < 8"
  shows "bit (fst (encode_byte b l)) (symbol_position k) \<longleftrightarrow> GET_BIT b (of_nat k) = level_at b l k"
    and "bit (fst (encode_byte b l)) (Suc (symbol_position k)) \<longleftrightarrow> GET_BIT b (of_nat k) \<noteq> level_at b l k"
proof -
  from assms consider "k = 0" | "k = 1" | "k = 2" | "k = 3" | "k = 4" | "k = 5" | "k = 6" | "k = 7"
    by linarith
  then have "(bit (fst (encode_byte b l)) (symbol_position k) \<longleftrightarrow> GET_BIT b (of_nat k) = level_at b l k)
     \<and> (bit (fst (encode_byte b l)) (Suc (symbol_position k)) \<longleftrightarrow> GET_BIT b (of_nat k) \<noteq> level_at b l k)"
    by cases
      (simp_all add: encode_byte_closed symbol_position_def symbol_at_def symbol_bits
         bit_or_iff bit_push_bit_iff bit_ucast_flag bit_times2 split del: if_split)
  then show "bit (fst (encode_byte b l)) (symbol_position k) \<longleftrightarrow> GET_BIT b (of_nat k) = level_at b l k"
    and "bit (fst (encode_byte b l)) (Suc (symbol_position k)) \<longleftrightarrow> GET_BIT b (of_nat k) \<noteq> level_at b l k"
    by simp_all
qed

lemma symbol_position_less: "symbol_position k < 16"
  by (simp add: symbol_position_def)

lemma unat_symbol_position:
  "unat (of_nat (symbol_position k) :: u8) = symbol_position k"
  "unat (of_nat (symbol_position k) + 1 :: u8) = Suc (symbol_position k)"
  using symbol_position_less [of k] by (simp_all add: unat_of_nat unat_word_ariths)

lemma wire_symbol_encoded:
  assumes "k < 8"
  shows "wire_symbol (fst (encode_byte b l)) k = symbol_at b l k"
proof -
  let ?e = "fst (encode_byte b l)"
  have "wire_symbol ?e k =
      (if bit ?e (Suc (symbol_position k)) then 1 else 0) OR
      push_bit 1 (if bit ?e (symbol_position k) then 1 else 0)"
    by (simp only: wire_symbol_def GET_BIT_bit unat_symbol_position)
  also have "\<dots> = symbol_at b l k"
    by (simp add: encoded_bits [OF assms] symbol_at_def encode_bit_def)
  finally show ?thesis .
qed

lemma decode_encode_bit_level:
  "snd (decode_bit (fst (encode_bit d c)) c) = snd (encode_bit d c)"
  by (simp add: decode_bit_def encode_bit_def)

lemma decode_encode_bit_value:
  assumes "d = 0 \<or> d = 1" and "c = 0 \<or> c = 1"
  shows "fst (decode_bit (fst (encode_bit d c)) c) = d"
  using assms by (auto simp: decode_bit_def encode_bit_def)

lemma GET_BIT_cases: "GET_BIT w n = 0 \<or> GET_BIT w n = 1"
  by (simp add: GET_BIT_bit)

lemma level_at_cases:
  assumes "l = 0 \<or> l = 1"
  shows "level_at b l k = 0 \<or> level_at b l k = 1"
  using assms
  by (cases k) (simp_all add: encode_bit_def LOGIC_LEVEL_LOW_def LOGIC_LEVEL_HIGH_def)

lemma decode_level_at_encoded:
  assumes "k \<le> 8"
  shows "decode_level_at (fst (encode_byte b l)) l k = level_at b l k"
  using assms
proof (induction k)
  case 0
  show ?case by simp
next
  case (Suc k)
  then have "k < 8" and "decode_level_at (fst (encode_byte b l)) l k = level_at b l k"
    by simp_all
  then show ?case
    by (simp add: wire_symbol_encoded symbol_at_def decode_encode_bit_level)
qed

lemma decoded_bit_encoded:
  assumes "k < 8" and "l = 0 \<or> l = 1"
  shows "decoded_bit (fst (encode_byte b l)) l k = GET_BIT b (of_nat k)"
  using assms
  by (simp add: decoded_bit_def wire_symbol_encoded decode_level_at_encoded symbol_at_def
        decode_encode_bit_value GET_BIT_cases level_at_cases)

lemma byte_of_bits:
  "ucast (push_bit 0 (ucast (GET_BIT b 0)) OR push_bit 1 (ucast (GET_BIT b 1)) OR
          push_bit 2 (ucast (GET_BIT b 2)) OR push_bit 3 (ucast (GET_BIT b 3)) OR
          push_bit 4 (ucast (GET_BIT b 4)) OR push_bit 5 (ucast (GET_BIT b 5)) OR
          push_bit 6 (ucast (GET_BIT b 6)) OR push_bit 7 (ucast (GET_BIT b 7)) :: u16) = (b :: u8)"
proof (rule bit_word_eqI)
  fix n :: nat
  assume "n < LENGTH(8)"
  then consider "n = 0" | "n = 1" | "n = 2" | "n = 3" | "n = 4" | "n = 5" | "n = 6" | "n = 7"
    by simp linarith
  then show "bit (ucast (push_bit 0 (ucast (GET_BIT b 0)) OR push_bit 1 (ucast (GET_BIT b 1)) OR
          push_bit 2 (ucast (GET_BIT b 2)) OR push_bit 3 (ucast (GET_BIT b 3)) OR
          push_bit 4 (ucast (GET_BIT b 4)) OR push_bit 5 (ucast (GET_BIT b 5)) OR
          push_bit 6 (ucast (GET_BIT b 6)) OR push_bit 7 (ucast (GET_BIT b 7)) :: u16) :: u8) n = bit b n"
    by cases
      (simp_all add: GET_BIT_bit bit_ucast_iff bit_or_iff bit_push_bit_iff bit_flag8
         del: push_bit_Suc split del: if_split)
qed

lemma encode_byte_level: "snd (encode_byte b l) = level_at b l 8"
  by (simp add: encode_byte_closed)

lemma decode_encode_byte:
  assumes "l = 0 \<or> l = 1"
  shows "decode_byte (fst (encode_byte b l)) l = (b, snd (encode_byte b l))"
proof -
  let ?e = "fst (encode_byte b l)"
  have level: "decode_level_at ?e l 8 = snd (encode_byte b l)"
    by (simp only: decode_level_at_encoded [of 8 b l] encode_byte_level order_refl)
  have "decoded_bit ?e l k = GET_BIT b (of_nat k)" if "k < 8" for k
    using that assms by (rule decoded_bit_encoded)
  from this [of 0] this [of 1] this [of 2] this [of 3] this [of 4] this [of 5] this [of 6] this [of 7]
  have bits: "decoded_bit ?e l 0 = GET_BIT b 0" "decoded_bit ?e l 1 = GET_BIT b 1"
    "decoded_bit ?e l 2 = GET_BIT b 2" "decoded_bit ?e l 3 = GET_BIT b 3"
    "decoded_bit ?e l 4 = GET_BIT b 4" "decoded_bit ?e l 5 = GET_BIT b 5"
    "decoded_bit ?e l 6 = GET_BIT b 6" "decoded_bit ?e l 7 = GET_BIT b 7"
    by simp_all
  show ?thesis
    by (simp only: decode_byte_closed [of ?e l] bits level byte_of_bits)
qed

section \<open>Buffer level\<close>

subsection \<open>What the two buffer loops compute\<close>

lemma length_encoded_stream: "length (encoded_stream bs l) = 2 * length bs"
  by (induction bs arbitrary: l) (simp_all add: case_prod_beta)

lemma take_update2:
  assumes "Suc j < length xs"
  shows "take (Suc (Suc j)) (xs[j := a, Suc j := b]) = take j xs @ [a, b]"
  using assms by (simp add: take_Suc_conv_app_nth)

lemma unat_add_of_nat:
  fixes e :: "'w::len word"
  assumes "unat e + m < 2 ^ LENGTH('w)"
  shows "unat (e + of_nat m) = unat e + m"
proof -
  from assms have "m < 2 ^ LENGTH('w)"
    by simp
  then have "unat (of_nat m :: 'w word) = m"
    by (simp add: unat_of_nat)
  with assms show ?thesis
    by (simp add: unat_word_ariths)
qed

lemma encode_loop_run:
  fixes i n e :: "'w::len word"
  assumes "unat n - unat i = k"
    and "unat n \<le> length data_in"
    and "unat e + 2 * k \<le> length out"
    and "unat e + 2 * k < 2 ^ LENGTH('w)"
  shows "encode_loop i data_in n e l out =
     Inr (take (unat e) out @ encoded_stream (take k (drop (unat i) data_in)) l @
          drop (unat e + 2 * k) out)"
  using assms
proof (induction k arbitrary: i e l out)
  case 0
  then have "\<not> i < n"
    by (simp add: word_less_nat_alt)
  then show ?case
    by (simp add: encode_loop.simps)
next
  case (Suc k)
  from Suc.prems(1) have lt: "i < n" and ui: "unat i < unat n"
    by (simp_all add: word_less_nat_alt)
  from lt have ui1: "unat (i + 1) = Suc (unat i)"
    by unat_arith
  from Suc.prems(4) have ue1: "unat (e + 1) = Suc (unat e)" and ue2: "unat (e + 2) = unat e + 2"
    using unat_add_of_nat [of e 1] unat_add_of_nat [of e 2] by simp_all
  obtain eb l' where eb: "encode_byte (data_in ! unat i) l = (eb, l')"
    by (cases "encode_byte (data_in ! unat i) l")
  let ?a = "ucast (drop_bit 8 eb AND 0x00ff) :: u8"
  let ?b = "ucast (eb AND 0x00ff) :: u8"
  let ?out = "out[unat e := ?a, Suc (unat e) := ?b]"
  have step: "encode_loop i data_in n e l out = encode_loop (i + 1) data_in n (e + 2) l' ?out"
    using lt ui Suc.prems(2,3) by (subst encode_loop.simps) (simp add: eb ue1)
  have "encode_loop (i + 1) data_in n (e + 2) l' ?out =
     Inr (take (unat (e + 2)) ?out @ encoded_stream (take k (drop (unat (i + 1)) data_in)) l' @
          drop (unat (e + 2) + 2 * k) ?out)"
    using Suc.prems ui by (intro Suc.IH) (simp_all add: ui1 ue2)
  moreover have "take (unat (e + 2)) ?out = take (unat e) out @ [?a, ?b]"
    using Suc.prems(3) by (simp add: ue2 take_update2)
  moreover have "drop (unat (e + 2) + 2 * k) ?out = drop (unat e + 2 * Suc k) out"
    by (simp add: ue2)
  moreover have "take (Suc k) (drop (unat i) data_in) = data_in ! unat i # take k (drop (unat (i + 1)) data_in)"
    using ui Suc.prems(2) by (simp add: ui1 flip: Cons_nth_drop_Suc)
  ultimately show ?case
    by (simp add: step eb)
qed

lemma decode_loop_run:
  fixes i n d :: "'w::len word"
  assumes "unat n - unat i = 2 * k"
    and "unat n \<le> length data_in"
    and "unat d + k \<le> length out"
    and "unat d + k < 2 ^ LENGTH('w)"
  shows "decode_loop i data_in n d l out =
     Some (Inr (take (unat d) out @ decoded_stream (take (2 * k) (drop (unat i) data_in)) l @
                drop (unat d + k) out))"
  using assms
proof (induction k arbitrary: i d l out)
  case 0
  then have "\<not> i < n"
    by (simp add: word_less_nat_alt)
  then show ?case
    by (simp add: decode_loop.simps)
next
  case (Suc k)
  from Suc.prems(1) have lt: "i < n" and ui: "Suc (unat i) < unat n"
    by (simp_all add: word_less_nat_alt)
  have "unat n < 2 ^ LENGTH('w)"
    by (rule unsigned_less)
  with ui have "unat i + 2 < 2 ^ LENGTH('w)"
    by linarith
  then have ui1: "unat (i + 1) = Suc (unat i)" and ui2: "unat (i + 2) = unat i + 2"
    using unat_add_of_nat [of i 1] unat_add_of_nat [of i 2] by simp_all
  from Suc.prems(4) have ud1: "unat (d + 1) = Suc (unat d)"
    using unat_add_of_nat [of d 1] by simp
  let ?unit = "push_bit 8 (ucast (data_in ! unat i)) OR ucast (data_in ! Suc (unat i)) :: u16"
  obtain db l' where db: "decode_byte ?unit l = (db, l')"
    by (cases "decode_byte ?unit l")
  let ?out = "out[unat d := db]"
  have step: "decode_loop i data_in n d l out = decode_loop (i + 2) data_in n (d + 1) l' ?out"
    using lt ui Suc.prems(2,3) by (subst decode_loop.simps) (simp add: db ui1)
  have "decode_loop (i + 2) data_in n (d + 1) l' ?out =
     Some (Inr (take (unat (d + 1)) ?out @ decoded_stream (take (2 * k) (drop (unat (i + 2)) data_in)) l' @
                drop (unat (d + 1) + k) ?out))"
    using Suc.prems ui by (intro Suc.IH) (simp_all add: ui2 ud1)
  moreover have "take (unat (d + 1)) ?out = take (unat d) out @ [db]"
    using Suc.prems(3) by (simp add: ud1 take_Suc_conv_app_nth)
  moreover have "drop (unat (d + 1) + k) ?out = drop (unat d + Suc k) out"
    by (simp add: ud1)
  moreover have "take (2 * Suc k) (drop (unat i) data_in) =
      data_in ! unat i # data_in ! Suc (unat i) # take (2 * k) (drop (unat (i + 2)) data_in)"
    using ui Suc.prems(2) by (simp add: ui2 flip: Cons_nth_drop_Suc)
  ultimately show ?case
    by (simp add: step db)
qed

lemma bit_255: "bit (255 :: int) n \<longleftrightarrow> n < 8"
proof -
  have "bit (mask 8 :: int) n \<longleftrightarrow> n < 8"
    by (auto simp: bit_mask_iff simp del: mask_numeral)
  then show ?thesis
    by (simp add: mask_eq_exp_minus_1)
qed

lemma unit_of_bytes:
  "push_bit 8 (ucast (ucast (drop_bit 8 e AND 0x00ff) :: u8)) OR
     ucast (ucast (e AND 0x00ff) :: u8) = (e :: u16)"
  by (rule bit_word_eqI) (auto simp: bit_simps bit_255)

lemma encode_byte_level_cases: "snd (encode_byte b l) = 0 \<or> snd (encode_byte b l) = 1"
  by (simp add: encode_byte_level numeral_eq_Suc encode_bit_def LOGIC_LEVEL_LOW_def LOGIC_LEVEL_HIGH_def)

lemma decoded_encoded_stream:
  assumes "l = 0 \<or> l = 1"
  shows "decoded_stream (encoded_stream bs l) l = bs"
  using assms
proof (induction bs arbitrary: l)
  case Nil
  show ?case by simp
next
  case (Cons b bs)
  obtain e l' where e: "encode_byte b l = (e, l')"
    by (cases "encode_byte b l")
  with Cons.prems have "decode_byte e l = (b, l')"
    using decode_encode_byte [of l b] by simp
  moreover from e have "l' = 0 \<or> l' = 1"
    using encode_byte_level_cases [of b l] by simp
  ultimately show ?case
    using Cons.IH [of l'] by (simp add: e unit_of_bytes)
qed

subsection \<open>The capacity guards and the results of whole calls\<close>

lemma unat_double:
  fixes n :: "'w::len word"
  shows "unat (n * 2) = (2 * unat n) mod 2 ^ LENGTH('w)"
proof -
  have "unat (n * of_nat 2) = (unat n * (2 mod 2 ^ LENGTH('w))) mod 2 ^ LENGTH('w)"
    by (simp only: unat_word_ariths unat_of_nat)
  then show ?thesis
    by (simp add: mod_mult_right_eq mult.commute)
qed

lemma unat_half:
  "unat (2 ^ (LENGTH('w) - 1) :: 'w::len word) = 2 ^ (LENGTH('w) - 1)"
proof -
  have "(2 :: nat) ^ (LENGTH('w) - 1) < 2 ^ LENGTH('w)"
    by (simp add: power_strict_increasing)
  then have "unat (of_nat (2 ^ (LENGTH('w) - 1)) :: 'w word) = 2 ^ (LENGTH('w) - 1)"
    by (simp only: unat_of_nat mod_less)
  then show ?thesis
    by (simp only: of_nat_power of_nat_numeral)
qed

lemma double_half: "(2 :: nat) * 2 ^ (LENGTH('w::len) - 1) = 2 ^ LENGTH('w)"
proof -
  have "LENGTH('w) = Suc (LENGTH('w) - 1)"
    by simp
  then have "(2 :: nat) ^ LENGTH('w) = 2 ^ Suc (LENGTH('w) - 1)"
    by (rule arg_cong)
  then show ?thesis
    by (simp only: power_Suc)
qed

lemma half_doubled_wraps: "unat ((2 ^ (LENGTH('w) - 1) :: 'w::len word) * 2) = 0"
  by (simp only: unat_double unat_half double_half mod_self)

lemma encode_guard:
  "encode data_in n out cap = Inr (False, out) \<longleftrightarrow> cap < n * 2"
  by (simp add: encode_def split: sum.splits)

lemma decode_guard:
  "decode data_in n out cap = Some (Inr (False, out)) \<longleftrightarrow> cap * 2 < n"
  by (simp add: decode_def split: option.splits sum.splits)

lemma encode_returns:
  fixes n cap :: "'w::len word"
  assumes "2 * unat n \<le> unat cap" and "unat n \<le> length data_in" and "unat cap \<le> length out"
  shows "encode data_in n out cap =
     Inr (True, encoded_stream (take (unat n) data_in) INITIAL_SIGNAL_LEVEL @ drop (2 * unat n) out)"
proof -
  have "unat cap < 2 ^ LENGTH('w)"
    by (rule unsigned_less)
  with assms(1) have nowrap: "2 * unat n < 2 ^ LENGTH('w)"
    by linarith
  then have "unat (n * 2) = 2 * unat n"
    by (simp add: unat_double)
  with assms(1) have "\<not> cap < n * 2"
    by (simp add: word_less_nat_alt)
  moreover have "encode_loop 0 data_in n 0 INITIAL_SIGNAL_LEVEL out =
     Inr (take (unat (0 :: 'w word)) out @
          encoded_stream (take (unat n) (drop (unat (0 :: 'w word)) data_in)) INITIAL_SIGNAL_LEVEL @
          drop (unat (0 :: 'w word) + 2 * unat n) out)"
    using assms nowrap by (intro encode_loop_run) simp_all
  ultimately show ?thesis
    by (simp add: encode_def)
qed

lemma decode_returns:
  fixes n cap :: "'w::len word"
  assumes "\<not> cap * 2 < n" and "unat n = 2 * m" and "unat n \<le> length data_in"
    and "m \<le> length out"
  shows "decode data_in n out cap =
     Some (Inr (True, decoded_stream (take (unat n) data_in) INITIAL_SIGNAL_LEVEL @ drop m out))"
proof -
  have "unat n < 2 ^ LENGTH('w)"
    by (rule unsigned_less)
  with assms(2) have "m < 2 ^ LENGTH('w)"
    by linarith
  with assms have "decode_loop 0 data_in n 0 INITIAL_SIGNAL_LEVEL out =
     Some (Inr (take (unat (0 :: 'w word)) out @
          decoded_stream (take (2 * m) (drop (unat (0 :: 'w word)) data_in)) INITIAL_SIGNAL_LEVEL @
          drop (unat (0 :: 'w word) + m) out))"
    by (intro decode_loop_run) simp_all
  with assms(1,2) show ?thesis
    by (simp add: decode_def)
qed

lemma unat_double_nowrap:
  fixes n :: "'w::len word"
  assumes "2 * unat n < 2 ^ LENGTH('w)"
  shows "unat (n * 2) = 2 * unat n"
  using assms by (simp add: unat_double)

lemma high_byte: "(ucast (drop_bit 8 e AND 0x00ff :: u16) :: u8) = ucast (drop_bit 8 e)"
  by (rule bit_word_eqI) (auto simp: bit_simps bit_255)

lemma low_byte: "(ucast (e AND 0x00ff :: u16) :: u8) = ucast e"
  by (rule bit_word_eqI) (auto simp: bit_simps bit_255)

lemma entry_level_Cons:
  "entry_level (b # bs) l (Suc j) = entry_level bs (snd (encode_byte b l)) j"
  by (induction j) simp_all

lemma encoded_stream_nth:
  assumes "j < length bs"
  shows "encoded_stream bs l ! (2 * j) =
           ucast (drop_bit 8 (fst (encode_byte (bs ! j) (entry_level bs l j)))) \<and>
         encoded_stream bs l ! (2 * j + 1) =
           ucast (fst (encode_byte (bs ! j) (entry_level bs l j)))"
  using assms
proof (induction bs arbitrary: l j)
  case Nil
  then show ?case by simp
next
  case (Cons b bs)
  show ?case
  proof (cases j)
    case 0
    then show ?thesis
      by (simp add: case_prod_beta high_byte low_byte)
  next
    case (Suc i)
    with Cons.prems have "i < length bs"
      by simp
    from Cons.IH [OF this, of "snd (encode_byte b l)"] show ?thesis
      unfolding Suc entry_level_Cons by (simp add: case_prod_beta)
  qed
qed

lemma symbol_at_bits:
  "bit (symbol_at b l k) 1 \<longleftrightarrow> GET_BIT b (of_nat k) = level_at b l k"
  "bit (symbol_at b l k) 0 \<longleftrightarrow> level_at b l (Suc k) = LOGIC_LEVEL_HIGH"
  "bit (symbol_at b l k) 0 \<longleftrightarrow> GET_BIT b (of_nat k) \<noteq> level_at b l k"
  by (simp_all add: symbol_at_def encode_bit_def LOGIC_LEVEL_HIGH_def LOGIC_LEVEL_LOW_def)

subsection \<open>Input of odd length\<close>

text \<open>
  With an odd \<open>data_in_len\<close> the last iteration of the loop of \<open>decode\<close> starts at
  \<open>i = data_in_len - 1\<close> and reads \<open>data_in[i + 1]\<close>, one byte past the declared
  input.  When the buffer holds exactly the declared bytes this read is outside
  the buffer.
\<close>

lemma decode_loop_odd:
  fixes i n d :: "'w::len word"
  assumes "unat n - unat i = 2 * k + 1"
    and "length data_in = unat n"
    and "unat d + k \<le> length out"
    and "unat d + k < 2 ^ LENGTH('w)"
  shows "decode_loop i data_in n d l out = Some (Inl OutOfBoundsRead)"
  using assms
proof (induction k arbitrary: i d l out)
  case 0
  then have lt: "i < n" and ui: "Suc (unat i) = unat n"
    by (simp_all add: word_less_nat_alt)
  have "unat n < 2 ^ LENGTH('w)"
    by (rule unsigned_less)
  with ui have "unat i + 1 < 2 ^ LENGTH('w)"
    by linarith
  then have "unat (i + 1) = Suc (unat i)"
    using unat_add_of_nat [of i 1] by simp
  with lt ui "0.prems"(2) show ?case
    by (subst decode_loop.simps) simp
next
  case (Suc k)
  from Suc.prems(1) have lt: "i < n" and ui: "Suc (Suc (unat i)) < unat n"
    by (simp_all add: word_less_nat_alt)
  have "unat n < 2 ^ LENGTH('w)"
    by (rule unsigned_less)
  with ui have "unat i + 2 < 2 ^ LENGTH('w)"
    by linarith
  then have ui1: "unat (i + 1) = Suc (unat i)" and ui2: "unat (i + 2) = unat i + 2"
    using unat_add_of_nat [of i 1] unat_add_of_nat [of i 2] by simp_all
  from Suc.prems(4) have ud1: "unat (d + 1) = Suc (unat d)"
    using unat_add_of_nat [of d 1] by simp
  let ?unit = "push_bit 8 (ucast (data_in ! unat i)) OR ucast (data_in ! Suc (unat i)) :: u16"
  obtain db l' where db: "decode_byte ?unit l = (db, l')"
    by (cases "decode_byte ?unit l")
  have "decode_loop i data_in n d l out =
      decode_loop (i + 2) data_in n (d + 1) l' (out[unat d := db])"
    using lt ui Suc.prems(2,3) by (subst decode_loop.simps) (simp add: db ui1)
  also have "\<dots> = Some (Inl OutOfBoundsRead)"
    using Suc.prems ui by (intro Suc.IH) (simp_all add: ui2 ud1)
  finally show ?case .
qed

lemma decode_odd_length_faults:
  fixes n cap :: "'w::len word"
  assumes "odd (unat n)" and "\<not> cap * 2 < n" and "length data_in = unat n"
    and "unat n div 2 \<le> length out"
  shows "decode data_in n out cap = Some (Inl OutOfBoundsRead)"
proof -
  from assms(1) have "unat n - unat (0 :: 'w word) = 2 * (unat n div 2) + 1"
    by simp
  moreover have "unat n < 2 ^ LENGTH('w)"
    by (rule unsigned_less)
  then have "unat n div 2 < 2 ^ LENGTH('w)"
    by (rule le_less_trans [rotated]) simp
  then have "unat (0 :: 'w word) + unat n div 2 < 2 ^ LENGTH('w)"
    by simp
  ultimately have "decode_loop 0 data_in n 0 INITIAL_SIGNAL_LEVEL out = Some (Inl OutOfBoundsRead)"
    using assms(3,4) by (intro decode_loop_odd) simp_all
  with assms(2) show ?thesis
    by (simp add: decode_def)
qed

subsection \<open>Every call of decode comes to an end\<close>

text \<open>
  The loop of \<open>decode\<close> can run forever only for \<open>data_in_len = 2 ^ w - 1\<close>.  The
  guard rejects that length, since the wrapped product \<open>data_out_len * 2\<close> is
  even and therefore at most \<open>2 ^ w - 2\<close>.  So a call of \<open>decode\<close> always returns
  or stops at a fault.
\<close>

lemma decode_loop_returns:
  fixes i n d :: "'w::len word"
  assumes "unat n + 1 < 2 ^ LENGTH('w)"
  shows "decode_loop i data_in n d l out \<noteq> None"
  using assms
proof (induction "unat n - unat i" arbitrary: i d l out rule: less_induct)
  case less
  show ?case
  proof (cases "i < n")
    case False
    then show ?thesis
      by (subst decode_loop.simps) simp
  next
    case True
    then have ui: "unat i < unat n"
      by (simp add: word_less_nat_alt)
    with less.prems have "unat i + 2 < 2 ^ LENGTH('w)"
      by linarith
    then have "unat (i + 2) = unat i + 2"
      using unat_add_of_nat [of i 2] by simp
    with ui have "unat n - unat (i + 2) < unat n - unat i"
      by linarith
    then have "decode_loop (i + 2) data_in n d' l' out' \<noteq> None" for d' l' out'
      using less.prems by (rule less.hyps)
    then show ?thesis
      by (subst decode_loop.simps) (simp add: case_prod_beta)
  qed
qed

lemma even_less_even:
  fixes y p :: nat
  assumes "even y" and "y < p" and "even p"
  shows "y + 1 < p"
  using assms by presburger

lemma decode_returns_or_faults:
  fixes n cap :: "'w::len word"
  shows "decode data_in n out cap \<noteq> None"
proof (cases "cap * 2 < n")
  case True
  then show ?thesis
    by (simp add: decode_def)
next
  case False
  have "even ((2 * unat cap) mod 2 ^ LENGTH('w))"
    by (intro dvd_mod) simp_all
  moreover have "(2 * unat cap) mod 2 ^ LENGTH('w) < 2 ^ LENGTH('w)"
    by simp
  moreover have "even ((2 :: nat) ^ LENGTH('w))"
    by simp
  ultimately have "(2 * unat cap) mod 2 ^ LENGTH('w) + 1 < 2 ^ LENGTH('w)"
    by (rule even_less_even)
  moreover from False have "unat n \<le> (2 * unat cap) mod 2 ^ LENGTH('w)"
    by (simp add: word_less_nat_alt unat_double)
  ultimately have "unat n + 1 < 2 ^ LENGTH('w)"
    by linarith
  then have "decode_loop 0 data_in n 0 INITIAL_SIGNAL_LEVEL out \<noteq> None"
    by (rule decode_loop_returns)
  with False show ?thesis
    by (auto simp: decode_def split: sum.splits)
qed

section \<open>The claims\<close>

text \<open>
  Claim C1 (round-trip identity), with the decode capacity bounded.  For every
  byte sequence \<open>b\<close> of length \<open>n\<close>: encoding \<open>b\<close> into a buffer of capacity at
  least \<open>2n\<close> returns true, and decoding the first \<open>2n\<close> bytes of the result into
  a buffer whose capacity \<open>c\<close> is at least \<open>n\<close> and satisfies \<open>2c < 2 ^ w\<close> returns
  true and leaves \<open>b\<close> in the first \<open>n\<close> bytes of the output, the rest of the
  output unchanged.  Both calls start with the level HIGH.  The length \<open>n\<close> is
  arbitrary, so \<open>n = 0\<close>, \<open>n = 1\<close> and large \<open>n\<close> are covered.
\<close>

theorem round_trip:
  fixes enc_capacity dec_capacity :: "'w::len word"
  assumes "2 * length b \<le> unat enc_capacity" and "unat enc_capacity \<le> length out_enc"
    and "length b \<le> unat dec_capacity" and "2 * unat dec_capacity < 2 ^ LENGTH('w)"
    and "unat dec_capacity \<le> length out_dec"
  shows "INITIAL_SIGNAL_LEVEL = LOGIC_LEVEL_HIGH \<and>
         (\<exists>enc. encode b (of_nat (length b)) out_enc enc_capacity = Inr (True, enc) \<and>
            length enc = length out_enc \<and>
            decode enc (of_nat (2 * length b)) out_dec dec_capacity =
              Some (Inr (True, b @ drop (length b) out_dec)))"
proof -
  define n :: "'w word" where "n = of_nat (length b)"
  define m :: "'w word" where "m = of_nat (2 * length b)"
  let ?enc = "encoded_stream b INITIAL_SIGNAL_LEVEL @ drop (2 * length b) out_enc"
  from assms(1) have "length b \<le> unat enc_capacity"
    by simp
  then have un: "unat n = length b"
    unfolding n_def by (rule le_unat_uoi)
  from assms(1) have um: "unat m = 2 * length b"
    unfolding m_def by (rule le_unat_uoi)
  have high: "INITIAL_SIGNAL_LEVEL = 0 \<or> INITIAL_SIGNAL_LEVEL = 1"
    by (simp add: INITIAL_SIGNAL_LEVEL_def LOGIC_LEVEL_HIGH_def)
  have enc: "encode b n out_enc enc_capacity = Inr (True, ?enc)"
    using encode_returns [of n enc_capacity b out_enc] assms(1,2) by (simp add: un)
  have len: "length ?enc = length out_enc"
    using assms(1,2) by (simp add: length_encoded_stream)
  from assms(3,4) have "\<not> dec_capacity * 2 < m"
    by (simp add: word_less_nat_alt unat_double_nowrap um)
  moreover have "unat m \<le> length ?enc"
    by (simp add: um length_encoded_stream)
  moreover from assms(3,5) have "length b \<le> length out_dec"
    by simp
  ultimately have "decode ?enc m out_dec dec_capacity =
      Some (Inr (True, decoded_stream (take (unat m) ?enc) INITIAL_SIGNAL_LEVEL @
                       drop (length b) out_dec))"
    using um by (intro decode_returns) simp_all
  moreover have "take (unat m) ?enc = encoded_stream b INITIAL_SIGNAL_LEVEL"
    by (simp add: um length_encoded_stream)
  ultimately have "decode ?enc m out_dec dec_capacity =
      Some (Inr (True, b @ drop (length b) out_dec))"
    by (simp add: decoded_encoded_stream [OF high])
  with enc len have "encode b n out_enc enc_capacity = Inr (True, ?enc) \<and>
      length ?enc = length out_enc \<and>
      decode ?enc m out_dec dec_capacity = Some (Inr (True, b @ drop (length b) out_dec))"
    by simp
  then have "\<exists>enc. encode b n out_enc enc_capacity = Inr (True, enc) \<and>
      length enc = length out_enc \<and>
      decode enc m out_dec dec_capacity = Some (Inr (True, b @ drop (length b) out_dec))"
    by (rule exI)
  then show ?thesis
    unfolding n_def m_def by (simp add: INITIAL_SIGNAL_LEVEL_def)
qed

text \<open>The round trip of the two bytes \<open>0xE5\<close>, \<open>0x74\<close> through buffers of exact size.\<close>

theorem round_trip_witness:
  "\<exists>enc. encode [0xE5, 0x74] (2 :: 64 word) [0, 0, 0, 0] 4 = Inr (True, enc) \<and>
     length enc = length [0, 0, 0, 0 :: u8] \<and>
     decode enc (4 :: 64 word) [0, 0] 2 = Some (Inr (True, [0xE5, 0x74]))"
  using round_trip [of "[0xE5, 0x74]" "4 :: 64 word" "[0, 0, 0, 0]" "2 :: 64 word" "[0, 0]"]
  by simp

text \<open>
  Without the bound on the decode capacity the round trip fails: with a 64-bit
  \<^verbatim>\<open>size_t\<close> and an output capacity of \<open>2 ^ 63\<close>, which is at least \<open>n = 1\<close>, the
  product \<open>data_out_len * 2\<close> wraps to 0 and \<open>decode\<close> rejects the two encoded
  bytes.
\<close>

theorem round_trip_huge_capacity_counterexample:
  "encode [0xE5] (1 :: 64 word) [0, 0] 2 = Inr (True, [0xA5, 0x66]) \<and>
   length [0xE5 :: u8] \<le> unat (2 ^ 63 :: 64 word) \<and>
   decode [0xA5, 0x66] (2 :: 64 word) (replicate (2 ^ 63) 0) (2 ^ 63) =
     Some (Inr (False, replicate (2 ^ 63) 0))"
proof -
  have "encode [0xE5] (1 :: 64 word) [0, 0] 2 = Inr (True, [0xA5, 0x66])"
    by code_simp
  then show ?thesis
    by (simp add: decode_def)
qed

text \<open>
  Claim C2 (bit-rule correctness table).  With current level HIGH (1),
  \<open>encode_bit\<close> maps data bit 1 to the symbol \<open>10\<close> with new level LOW and data bit
  0 to the symbol \<open>01\<close> with new level HIGH; with current level LOW (0) it maps
  data bit 0 to \<open>10\<close> with new level LOW and data bit 1 to \<open>01\<close> with new level
  HIGH.  \<open>decode_bit\<close> inverts each of the four cases: from the symbol and the
  same current level it recovers the data bit and produces the same new level.
\<close>

theorem bit_rule_table:
  "encode_bit 1 LOGIC_LEVEL_HIGH = (2, LOGIC_LEVEL_LOW) \<and>
   encode_bit 0 LOGIC_LEVEL_HIGH = (1, LOGIC_LEVEL_HIGH) \<and>
   encode_bit 0 LOGIC_LEVEL_LOW = (2, LOGIC_LEVEL_LOW) \<and>
   encode_bit 1 LOGIC_LEVEL_LOW = (1, LOGIC_LEVEL_HIGH) \<and>
   decode_bit 2 LOGIC_LEVEL_HIGH = (1, LOGIC_LEVEL_LOW) \<and>
   decode_bit 1 LOGIC_LEVEL_HIGH = (0, LOGIC_LEVEL_HIGH) \<and>
   decode_bit 2 LOGIC_LEVEL_LOW = (0, LOGIC_LEVEL_LOW) \<and>
   decode_bit 1 LOGIC_LEVEL_LOW = (1, LOGIC_LEVEL_HIGH) \<and>
   LOGIC_LEVEL_HIGH = 1 \<and> LOGIC_LEVEL_LOW = 0"
  by (simp add: encode_bit_def decode_bit_def LOGIC_LEVEL_LOW_def LOGIC_LEVEL_HIGH_def)

text \<open>
  Claim C3 (byte-packing layout).  For every raw byte \<open>b\<close> and every starting
  level \<open>l\<close>, \<open>encode_byte\<close> handles the raw bits from bit 0 to bit 7, the level
  running through them in that order, and puts the symbol of raw bit \<open>k\<close> at the
  positions \<open>symbol_position k\<close> and \<open>symbol_position k + 1\<close> of the encoded unit,
  which are 8, 10, 12, 14, 0, 2, 4, 6 and their successors.  The lower position
  holds bit 1 of the symbol, which is set when a mid-cell transition occurs
  (the data bit equals the level), and the higher position holds bit 0 of the
  symbol, which is the new level.  \<open>encode\<close> then writes the unit of input byte
  \<open>j\<close> big-endian: output byte \<open>2j\<close> holds the bits 8 to 15 of the unit and output
  byte \<open>2j + 1\<close> holds the bits 0 to 7.
\<close>

theorem byte_packing_layout:
  fixes data_in_len data_out_len :: "'w::len word"
  shows "(\<forall>k<8.
            (bit (fst (encode_byte b l)) (symbol_position k) \<longleftrightarrow> bit (symbol_at b l k) 1) \<and>
            (bit (fst (encode_byte b l)) (symbol_position k + 1) \<longleftrightarrow> bit (symbol_at b l k) 0) \<and>
            (bit (symbol_at b l k) 1 \<longleftrightarrow> GET_BIT b (of_nat k) = level_at b l k) \<and>
            (bit (symbol_at b l k) 0 \<longleftrightarrow> level_at b l (Suc k) = LOGIC_LEVEL_HIGH)) \<and>
         map symbol_position [0, 1, 2, 3, 4, 5, 6, 7] = [8, 10, 12, 14, 0, 2, 4, 6] \<and>
         snd (encode_byte b l) = level_at b l 8 \<and>
         (2 * unat data_in_len \<le> unat data_out_len \<and>
          unat data_in_len \<le> length data_in \<and> unat data_out_len \<le> length data_out \<longrightarrow>
            (\<exists>out. encode data_in data_in_len data_out data_out_len = Inr (True, out) \<and>
               (\<forall>j<unat data_in_len. \<forall>m<8.
                  (bit (out ! (2 * j)) m \<longleftrightarrow>
                     bit (fst (encode_byte (data_in ! j)
                                 (entry_level data_in INITIAL_SIGNAL_LEVEL j))) (8 + m)) \<and>
                  (bit (out ! (2 * j + 1)) m \<longleftrightarrow>
                     bit (fst (encode_byte (data_in ! j)
                                 (entry_level data_in INITIAL_SIGNAL_LEVEL j))) m))))"
proof (intro conjI allI impI)
  fix k :: nat
  assume k: "k < 8"
  show "bit (fst (encode_byte b l)) (symbol_position k) \<longleftrightarrow> bit (symbol_at b l k) 1"
    by (simp only: encoded_bits(1) [OF k] symbol_at_bits(1))
  show "bit (fst (encode_byte b l)) (symbol_position k + 1) \<longleftrightarrow> bit (symbol_at b l k) 0"
    by (simp only: encoded_bits(2) [OF k] symbol_at_bits(3) Suc_eq_plus1 [symmetric])
  show "bit (symbol_at b l k) 1 \<longleftrightarrow> GET_BIT b (of_nat k) = level_at b l k"
    by (rule symbol_at_bits)
  show "bit (symbol_at b l k) 0 \<longleftrightarrow> level_at b l (Suc k) = LOGIC_LEVEL_HIGH"
    by (rule symbol_at_bits)
next
  show "map symbol_position [0, 1, 2, 3, 4, 5, 6, 7] = [8, 10, 12, 14, 0, 2, 4, 6]"
    by (simp add: symbol_position_def)
  show "snd (encode_byte b l) = level_at b l 8"
    by (rule encode_byte_level)
next
  let ?n = "unat data_in_len"
  let ?out = "encoded_stream (take ?n data_in) INITIAL_SIGNAL_LEVEL @ drop (2 * ?n) data_out"
  assume ok: "2 * ?n \<le> unat data_out_len \<and> ?n \<le> length data_in \<and>
      unat data_out_len \<le> length data_out"
  then have run: "encode data_in data_in_len data_out data_out_len = Inr (True, ?out)"
    by (intro encode_returns) simp_all
  have level: "entry_level (take ?n data_in) l' j = entry_level data_in l' j" if "j \<le> ?n" for j l'
    using that by (induction j) simp_all
  have "(bit (?out ! (2 * j)) m \<longleftrightarrow>
           bit (fst (encode_byte (data_in ! j) (entry_level data_in INITIAL_SIGNAL_LEVEL j))) (8 + m)) \<and>
        (bit (?out ! (2 * j + 1)) m \<longleftrightarrow>
           bit (fst (encode_byte (data_in ! j) (entry_level data_in INITIAL_SIGNAL_LEVEL j))) m)"
    if "j < ?n" and "m < 8" for j m
  proof -
    from that ok have j: "j < length (take ?n data_in)"
      by simp
    from that have "2 * j + 1 < length (encoded_stream (take ?n data_in) INITIAL_SIGNAL_LEVEL)"
      using ok by (simp add: length_encoded_stream)
    then have "?out ! (2 * j) = encoded_stream (take ?n data_in) INITIAL_SIGNAL_LEVEL ! (2 * j)"
      and "?out ! (2 * j + 1) = encoded_stream (take ?n data_in) INITIAL_SIGNAL_LEVEL ! (2 * j + 1)"
      by (simp_all add: nth_append)
    with encoded_stream_nth [OF j, of INITIAL_SIGNAL_LEVEL] that show ?thesis
      by (simp add: level bit_simps)
  qed
  with run show "\<exists>out. encode data_in data_in_len data_out data_out_len = Inr (True, out) \<and>
      (\<forall>j<unat data_in_len. \<forall>m<8.
         (bit (out ! (2 * j)) m \<longleftrightarrow>
            bit (fst (encode_byte (data_in ! j) (entry_level data_in INITIAL_SIGNAL_LEVEL j))) (8 + m)) \<and>
         (bit (out ! (2 * j + 1)) m \<longleftrightarrow>
            bit (fst (encode_byte (data_in ! j) (entry_level data_in INITIAL_SIGNAL_LEVEL j))) m))"
    by blast
qed

text \<open>The layout at the byte \<open>0x74\<close>, for raw bit 0 and the two output bytes.\<close>

theorem byte_packing_layout_witness:
  "symbol_position 0 = 8 \<and>
   (bit (fst (encode_byte 0x74 1)) 8 \<longleftrightarrow> bit (symbol_at 0x74 1 0) 1) \<and>
   (bit (fst (encode_byte 0x74 1)) 9 \<longleftrightarrow> bit (symbol_at 0x74 1 0) 0) \<and>
   (\<exists>out. encode [0x74] (1 :: 64 word) [0, 0] 2 = Inr (True, out) \<and>
      (bit (out ! 0) 0 \<longleftrightarrow> bit (fst (encode_byte 0x74 1)) 8) \<and>
      (bit (out ! 1) 0 \<longleftrightarrow> bit (fst (encode_byte 0x74 1)) 0))"
proof -
  note layout = byte_packing_layout [of "0x74" 1 "1 :: 64 word" 2 "[0x74]" "[0, 0]"]
  have k: "(0 :: nat) < 8"
    by simp
  have ok: "2 * unat (1 :: 64 word) \<le> unat (2 :: 64 word) \<and>
      unat (1 :: 64 word) \<le> length [0x74 :: u8] \<and> unat (2 :: 64 word) \<le> length [0, 0 :: u8]"
    by simp
  have j: "0 < unat (1 :: 64 word)"
    by simp
  from layout k have "(bit (fst (encode_byte 0x74 1)) (symbol_position 0) \<longleftrightarrow> bit (symbol_at 0x74 1 0) 1) \<and>
      (bit (fst (encode_byte 0x74 1)) (symbol_position 0 + 1) \<longleftrightarrow> bit (symbol_at 0x74 1 0) 0)"
    by blast
  moreover from layout ok j k have "\<exists>out. encode [0x74] (1 :: 64 word) [0, 0] 2 = Inr (True, out) \<and>
      (bit (out ! (2 * 0)) 0 \<longleftrightarrow>
         bit (fst (encode_byte ([0x74] ! 0) (entry_level [0x74] INITIAL_SIGNAL_LEVEL 0))) (8 + 0)) \<and>
      (bit (out ! (2 * 0 + 1)) 0 \<longleftrightarrow>
         bit (fst (encode_byte ([0x74] ! 0) (entry_level [0x74] INITIAL_SIGNAL_LEVEL 0))) 0)"
    by blast
  ultimately show ?thesis
    by (simp add: symbol_position_def INITIAL_SIGNAL_LEVEL_def LOGIC_LEVEL_HIGH_def)
qed

text \<open>
  Claim C4 (encode capacity rejection), for input lengths whose double does not
  wrap.  When \<open>2 * input_len < 2 ^ w\<close>: \<open>encode\<close> returns false and leaves the
  output buffer unchanged when \<open>output_capacity < 2 * input_len\<close>, and otherwise
  returns true, provided that the two buffers hold at least the declared
  numbers of bytes; it then has written the encoded stream to the first
  \<open>2 * input_len\<close> bytes.
\<close>

theorem encode_capacity_rejection:
  fixes data_in_len data_out_len :: "'w::len word"
  assumes "2 * unat data_in_len < 2 ^ LENGTH('w)"
  shows "(unat data_out_len < 2 * unat data_in_len \<longrightarrow>
            encode data_in data_in_len data_out data_out_len = Inr (False, data_out)) \<and>
         (2 * unat data_in_len \<le> unat data_out_len \<and>
          unat data_in_len \<le> length data_in \<and> unat data_out_len \<le> length data_out \<longrightarrow>
            encode data_in data_in_len data_out data_out_len =
              Inr (True, encoded_stream (take (unat data_in_len) data_in) INITIAL_SIGNAL_LEVEL @
                         drop (2 * unat data_in_len) data_out))"
  using assms
  by (simp add: encode_guard word_less_nat_alt unat_double_nowrap encode_returns)

text \<open>
  One input byte: a capacity of 1 is rejected and the buffer is left as it was,
  a capacity of 2 is accepted.
\<close>

theorem encode_capacity_rejection_witness:
  "encode [0x74] (1 :: 64 word) [0] 1 = Inr (False, [0]) \<and>
   encode [0x74] (1 :: 64 word) [0, 0, 9] 2 = Inr (True, [0x5A, 0xA6, 9])"
proof -
  have small: "2 * unat (1 :: 64 word) < 2 ^ LENGTH(64)"
    by simp
  have stream: "encoded_stream [0x74] INITIAL_SIGNAL_LEVEL = [0x5A, 0xA6]"
    by code_simp
  from encode_capacity_rejection [OF small, of 1 "[0x74]" "[0]"]
    encode_capacity_rejection [OF small, of 2 "[0x74]" "[0, 0, 9]"]
  show ?thesis
    by (simp add: stream del: encoded_stream.simps)
qed

text \<open>
  For an input length of \<open>2 ^ 63\<close> with a 64-bit \<^verbatim>\<open>size_t\<close> the product
  \<open>data_in_len * 2\<close> wraps to 0: a capacity of 0 passes the guard, \<open>encode\<close> does
  not return false and the first write is outside the output buffer.
\<close>

theorem encode_capacity_wrap_counterexample:
  "unat (0 :: 64 word) < 2 * unat (2 ^ 63 :: 64 word) \<and>
   encode (replicate (2 ^ 63) 0) (2 ^ 63 :: 64 word) [] 0 = Inl OutOfBoundsWrite"
  by (simp add: encode_def encode_loop.simps case_prod_beta)

text \<open>
  Claim C5 (decode capacity rejection), for capacities whose double does not
  wrap and inputs of even length.  \<open>decode\<close> returns false and leaves the output
  buffer unchanged when \<open>2 * output_capacity < input_len\<close>.  It returns true when
  \<open>input_len \<le> 2 * output_capacity < 2 ^ w\<close>, \<open>input_len\<close> is even and the two
  buffers hold at least the declared numbers of bytes; it then has written
  \<open>input_len div 2\<close> bytes.
\<close>

theorem decode_capacity_rejection:
  fixes data_in_len data_out_len :: "'w::len word"
  shows "(2 * unat data_out_len < unat data_in_len \<longrightarrow>
            decode data_in data_in_len data_out data_out_len = Some (Inr (False, data_out))) \<and>
         (unat data_in_len \<le> 2 * unat data_out_len \<and> 2 * unat data_out_len < 2 ^ LENGTH('w) \<and>
          even (unat data_in_len) \<and>
          unat data_in_len \<le> length data_in \<and> unat data_out_len \<le> length data_out \<longrightarrow>
            decode data_in data_in_len data_out data_out_len =
              Some (Inr (True, decoded_stream (take (unat data_in_len) data_in) INITIAL_SIGNAL_LEVEL @
                               drop (unat data_in_len div 2) data_out)))"
proof (intro conjI impI)
  assume small: "2 * unat data_out_len < unat data_in_len"
  have "unat data_in_len < 2 ^ LENGTH('w)"
    by (rule unsigned_less)
  with small have "2 * unat data_out_len < 2 ^ LENGTH('w)"
    by linarith
  with small show "decode data_in data_in_len data_out data_out_len = Some (Inr (False, data_out))"
    by (simp add: decode_guard word_less_nat_alt unat_double_nowrap)
next
  assume ok: "unat data_in_len \<le> 2 * unat data_out_len \<and> 2 * unat data_out_len < 2 ^ LENGTH('w) \<and>
      even (unat data_in_len) \<and>
      unat data_in_len \<le> length data_in \<and> unat data_out_len \<le> length data_out"
  then have "\<not> data_out_len * 2 < data_in_len"
    by (simp add: word_less_nat_alt unat_double_nowrap)
  moreover from ok have "unat data_in_len = 2 * (unat data_in_len div 2)"
    by simp
  moreover from ok have "unat data_in_len div 2 \<le> length data_out"
    by linarith
  ultimately show "decode data_in data_in_len data_out data_out_len =
      Some (Inr (True, decoded_stream (take (unat data_in_len) data_in) INITIAL_SIGNAL_LEVEL @
                       drop (unat data_in_len div 2) data_out))"
    using ok by (intro decode_returns) simp_all
qed

text \<open>
  Four input bytes with a capacity of 1 are rejected; two input bytes with a
  capacity of 2 are decoded.
\<close>

theorem decode_capacity_rejection_witness:
  "decode [0x5A, 0xA6, 0x5A, 0xA6] (4 :: 64 word) [0] 1 = Some (Inr (False, [0])) \<and>
   decode [0x5A, 0xA6] (2 :: 64 word) [0, 9] 2 = Some (Inr (True, [0x74, 9]))"
proof -
  have stream: "decoded_stream [0x5A, 0xA6] INITIAL_SIGNAL_LEVEL = [0x74]"
    by code_simp
  from decode_capacity_rejection [of 1 "4 :: 64 word" "[0x5A, 0xA6, 0x5A, 0xA6]" "[0]"]
    decode_capacity_rejection [of 2 "2 :: 64 word" "[0x5A, 0xA6]" "[0, 9]"]
  show ?thesis
    by (simp add: stream del: decoded_stream.simps)
qed

text \<open>
  For a capacity of \<open>2 ^ 63\<close> with a 64-bit \<^verbatim>\<open>size_t\<close> the product
  \<open>data_out_len * 2\<close> wraps to 0, and two input bytes are rejected although twice
  the capacity is far more than 2.
\<close>

theorem decode_capacity_wrap_counterexample:
  "unat (2 :: 64 word) \<le> 2 * unat (2 ^ 63 :: 64 word) \<and>
   decode [0x5A, 0xA6] (2 :: 64 word) (replicate (2 ^ 63) 0) (2 ^ 63) =
     Some (Inr (False, replicate (2 ^ 63) 0))"
  by (simp add: decode_def)

text \<open>
  Claim C6 (odd-length decode input) does not hold of the code.  With three
  input bytes and room for two output bytes the guard passes and the loop runs
  a second time at \<open>i = 2\<close>: it reads \<open>data_in[3]\<close>, outside a three-byte buffer.
  When a fourth byte happens to be readable, the trailing byte is paired with
  it and a second output byte is written, unlike the call with
  \<open>data_in_len = 2\<close>, which leaves the second output byte alone.
\<close>

theorem odd_length_decode_reads_past_input:
  "decode [0xA5, 0x66, 0xA5] (3 :: 64 word) [0, 0] 2 = Some (Inl OutOfBoundsRead) \<and>
   decode [0xA5, 0x66, 0xA5, 0x59] (3 :: 64 word) [0, 0] 2 = Some (Inr (True, [0xE5, 0x74])) \<and>
   decode [0xA5, 0x66, 0xA5, 0x59] (2 :: 64 word) [0, 0] 2 = Some (Inr (True, [0xE5, 0]))"
proof (intro conjI)
  show "decode [0xA5, 0x66, 0xA5] (3 :: 64 word) [0, 0] 2 = Some (Inl OutOfBoundsRead)"
    by code_simp
  show "decode [0xA5, 0x66, 0xA5, 0x59] (3 :: 64 word) [0, 0] 2 = Some (Inr (True, [0xE5, 0x74]))"
    by code_simp
  show "decode [0xA5, 0x66, 0xA5, 0x59] (2 :: 64 word) [0, 0] 2 = Some (Inr (True, [0xE5, 0]))"
    by code_simp
qed

text \<open>
  Claim C7 (invalid symbols decode as \<open>01\<close>).  For every current level \<open>c\<close>,
  \<open>decode_bit\<close> applied to the invalid symbols \<open>00\<close> and \<open>11\<close> returns the same
  raw bit and the same new level as for the symbol \<open>01\<close>: the raw bit is the
  logical negation of \<open>c\<close> and the new level is HIGH.  The function has no error
  result, so nothing is detected or reported.
\<close>

theorem invalid_symbols_decode_as_01:
  "decode_bit 0 c = decode_bit 1 c \<and> decode_bit 3 c = decode_bit 1 c \<and>
   decode_bit 1 c = ((if c = 0 then 1 else 0), LOGIC_LEVEL_HIGH)"
  by (simp add: decode_bit_def)

text \<open>
  Claim C8 (cross-byte level continuity).  For every pair of bytes \<open>b0\<close>, \<open>b1\<close>
  and every output buffer of capacity at least 4, \<open>encode\<close> of the two-byte
  buffer writes the same four bytes as \<open>encode_byte\<close> on \<open>b0\<close> with level HIGH
  followed by \<open>encode_byte\<close> on \<open>b1\<close> with the level that the first call ends
  with, each unit split into its high and its low byte.
\<close>

theorem cross_byte_level_continuity:
  fixes data_out_len :: "'w::len word"
  assumes "4 \<le> unat data_out_len" and "unat data_out_len \<le> length data_out"
  shows "encode [b0, b1] 2 data_out data_out_len =
     (case encode_byte b0 LOGIC_LEVEL_HIGH of
        (e0, level1) \<Rightarrow>
          (case encode_byte b1 level1 of
             (e1, level2) \<Rightarrow>
               Inr (True, [ucast (drop_bit 8 e0), ucast e0, ucast (drop_bit 8 e1), ucast e1] @
                          drop 4 data_out)))"
proof -
  from assms(1) have two: "unat (of_nat 2 :: 'w word) = 2"
    by (intro le_unat_uoi [of _ data_out_len]) simp
  then have "encode [b0, b1] (2 :: 'w word) data_out data_out_len =
      Inr (True, encoded_stream (take (unat (2 :: 'w word)) [b0, b1]) INITIAL_SIGNAL_LEVEL @
                 drop (2 * unat (2 :: 'w word)) data_out)"
    using assms by (intro encode_returns) simp_all
  with two show ?thesis
    by (simp add: INITIAL_SIGNAL_LEVEL_def case_prod_beta high_byte low_byte)
qed

text \<open>The two bytes \<open>0xE5\<close>, \<open>0x74\<close> in a buffer of five bytes.\<close>

theorem cross_byte_level_continuity_witness:
  "encode [0xE5, 0x74] (2 :: 64 word) [1, 2, 3, 4, 5] 5 = Inr (True, [0xA5, 0x66, 0xA5, 0x59, 5])"
proof -
  have bytes: "encode_byte 0xE5 LOGIC_LEVEL_HIGH = (0xA566, 0)" "encode_byte 0x74 0 = (0xA559, 0)"
    by code_simp+
  from cross_byte_level_continuity [of "5 :: 64 word" "[1, 2, 3, 4, 5]" "0xE5" "0x74"]
  show ?thesis
    by (simp add: bytes)
qed

text \<open>
  Claim C9 (zero-length buffers).  For every input buffer, output buffer and
  output capacity, \<open>encode\<close> and \<open>decode\<close> with \<open>input_len = 0\<close> return true and
  leave the output buffer unchanged.
\<close>

theorem zero_length_buffers:
  "encode data_in 0 data_out data_out_len = Inr (True, data_out) \<and>
   decode data_in 0 data_out data_out_len = Some (Inr (True, data_out))"
  by (simp add: encode_def decode_def encode_loop.simps decode_loop.simps)

text \<open>
  Claim C10 (wraparound capacity checks).  The guards compute
  \<open>data_in_len * 2\<close> and \<open>data_out_len * 2\<close> modulo \<open>2 ^ w\<close>, where \<open>w\<close> is the
  width of \<^verbatim>\<open>size_t\<close>: \<open>encode\<close> returns false exactly when the capacity is below
  the wrapped double of the input length, and \<open>decode\<close> exactly when the wrapped
  double of the capacity is below the input length.  Consequently there are an
  input length of at least \<open>2 ^ (w - 1)\<close> and a capacity smaller than twice that
  length for which \<open>encode\<close> does not return false, and a capacity of at least
  \<open>2 ^ (w - 1)\<close> and an input length of at most twice that capacity for which
  \<open>decode\<close> returns false.
\<close>

theorem capacity_guards_wrap:
  fixes data_in_len data_out_len :: "'w::len word"
  shows "(encode data_in data_in_len data_out data_out_len = Inr (False, data_out) \<longleftrightarrow>
            unat data_out_len < (2 * unat data_in_len) mod 2 ^ LENGTH('w)) \<and>
         (decode data_in data_in_len data_out data_out_len = Some (Inr (False, data_out)) \<longleftrightarrow>
            (2 * unat data_out_len) mod 2 ^ LENGTH('w) < unat data_in_len) \<and>
         (\<exists>n cap :: 'w word. 2 ^ (LENGTH('w) - 1) \<le> unat n \<and> unat cap < 2 * unat n \<and>
            (\<forall>src dst. encode src n dst cap \<noteq> Inr (False, dst))) \<and>
         (\<exists>n cap :: 'w word. 2 ^ (LENGTH('w) - 1) \<le> unat cap \<and> unat n \<le> 2 * unat cap \<and>
            (\<forall>src dst. decode src n dst cap = Some (Inr (False, dst))))"
proof (intro conjI)
  show "encode data_in data_in_len data_out data_out_len = Inr (False, data_out) \<longleftrightarrow>
      unat data_out_len < (2 * unat data_in_len) mod 2 ^ LENGTH('w)"
    by (simp add: encode_guard word_less_nat_alt unat_double)
  show "decode data_in data_in_len data_out data_out_len = Some (Inr (False, data_out)) \<longleftrightarrow>
      (2 * unat data_out_len) mod 2 ^ LENGTH('w) < unat data_in_len"
    by (simp add: decode_guard word_less_nat_alt unat_double)
  let ?half = "2 ^ (LENGTH('w) - 1) :: 'w word"
  note half = unat_half [where 'w = 'w]
  note dbl = half_doubled_wraps [where 'w = 'w]
  have e1: "2 ^ (LENGTH('w) - 1) \<le> unat ?half"
    unfolding half by (rule order_refl)
  have e2: "unat (0 :: 'w word) < 2 * unat ?half"
    unfolding half by simp
  have e3: "\<forall>src dst. encode src ?half dst (0 :: 'w word) \<noteq> Inr (False, dst)"
    unfolding encode_guard word_less_nat_alt dbl by simp
  from e1 e2 e3 show "\<exists>n cap :: 'w word. 2 ^ (LENGTH('w) - 1) \<le> unat n \<and> unat cap < 2 * unat n \<and>
      (\<forall>src dst. encode src n dst cap \<noteq> Inr (False, dst))"
    by blast
  have d2: "unat (1 :: 'w word) \<le> 2 * unat ?half"
    unfolding half by (simp add: Suc_leI)
  have d3: "\<forall>src dst. decode src (1 :: 'w word) dst ?half = Some (Inr (False, dst))"
    unfolding decode_guard word_less_nat_alt dbl by simp
  from e1 d2 d3 show "\<exists>n cap :: 'w word. 2 ^ (LENGTH('w) - 1) \<le> unat cap \<and> unat n \<le> 2 * unat cap \<and>
      (\<forall>src dst. decode src n dst cap = Some (Inr (False, dst)))"
    by blast
qed

end
